theory Spec2Isabelle
  imports Complex_Main "HOL-Library.Word" "HOL-Library.Log_Nat" "HOL-Library.Multiset"
begin

unbundle bit_operations_syntax

section \<open>Python values used by \<open>puzzle_processing.py\<close>\<close>

subsection \<open>Floats\<close>

text \<open>
  A Python \<open>float\<close> is an IEEE 754 double.  A finite double is a rational number, and the
  result of an arithmetic operation is the exact result rounded to the nearest number with a
  53-bit significand, ties going to the even significand.  \<open>rn\<close> is that rounding; the
  exponent range is not bounded here (the quotients and products of this module are far from
  overflow and from the subnormal range).
\<close>

type_synonym pyfloat = rat

definition pow2 :: "int \<Rightarrow> rat" where
  "pow2 e = (if 0 \<le> e then 2 ^ nat e else 1 / 2 ^ nat (- e))"

definition round_half_even :: "rat \<Rightarrow> int" where
  "round_half_even x =
     (let f = \<lfloor>x\<rfloor>; d = x - of_int f
      in if d < 1 / 2 then f
         else if 1 / 2 < d then f + 1
         else if even f then f else f + 1)"

text \<open>The binary exponent of a positive rational \<open>a\<close>: \<open>2 ^ e \<le> a < 2 ^ (e + 1)\<close>.\<close>

definition binade :: "rat \<Rightarrow> int" where
  "binade a =
     (case quotient_of a of (p, q) \<Rightarrow>
        let k = bitlen p - bitlen q
        in if pow2 k \<le> a then k else k - 1)"

definition rn :: "rat \<Rightarrow> pyfloat" where
  "rn x =
     (if x = 0 then 0
      else let a = \<bar>x\<bar>;
               u = pow2 (binade a - 52)
           in sgn x * of_int (round_half_even (a / u)) * u)"

datatype error = PuzzleNotFoundError | ZeroDivisionError | ValueError

text \<open>\<open>float(h)\<close>, \<open>a / b\<close> and \<open>a * b\<close> on floats, and the literals of the module.\<close>

definition float_of_int :: "int \<Rightarrow> pyfloat" where
  "float_of_int n = rn (of_int n)"

definition float_truediv :: "pyfloat \<Rightarrow> pyfloat \<Rightarrow> error + pyfloat" where
  "float_truediv a b = (if b = 0 then Inl ZeroDivisionError else Inr (rn (a / b)))"

definition float_mul :: "pyfloat \<Rightarrow> pyfloat \<Rightarrow> pyfloat" where
  "float_mul a b = rn (a * b)"

definition lit_0_01 :: pyfloat where "lit_0_01 = rn (1 / 100)"
definition lit_0_8 :: pyfloat where "lit_0_8 = rn (4 / 5)"
definition lit_1_2 :: pyfloat where "lit_1_2 = rn (6 / 5)"

subsection \<open>Sequences\<close>

text \<open>
  \<open>sorted(xs, key=f, reverse=True)\<close> is stable: elements with equal keys keep their
  order (the list is reversed, sorted stably in ascending order and reversed again).
\<close>

definition py_sorted_reverse :: "('a \<Rightarrow> 'k::linorder) \<Rightarrow> 'a list \<Rightarrow> 'a list" where
  "py_sorted_reverse key xs = rev (sort_key key (rev xs))"

text \<open>
  \<open>max(xs, key=f)\<close> keeps the first element whose key is largest (a later element
  replaces the best one only when its key is strictly greater) and raises \<open>ValueError\<close> on
  an empty sequence.
\<close>

fun max_from :: "('a \<Rightarrow> 'k::linorder) \<Rightarrow> 'a \<Rightarrow> 'a list \<Rightarrow> 'a" where
  "max_from key best [] = best"
| "max_from key best (x # xs) = max_from key (if key best < key x then x else best) xs"

definition py_max :: "('a \<Rightarrow> 'k::linorder) \<Rightarrow> 'a list \<Rightarrow> error + 'a" where
  "py_max key xs = (case xs of [] \<Rightarrow> Inl ValueError | x # rest \<Rightarrow> Inr (max_from key x rest))"

subsection \<open>Arrays\<close>

text \<open>
  An image is a numpy array: its shape and its pixels in row-major order.  A grayscale
  image has \<open>uint8\<close> pixels, a colour frame has (blue, green, red) triples of them.  A
  contour is the sequence of its integer points.
\<close>

type_synonym u8 = "8 word"

record 'p ndarray =
  rows :: nat
  cols :: nat
  data :: "'p list"

type_synonym gray = "u8 ndarray"
type_synonym bgr = "(u8 \<times> u8 \<times> u8) ndarray"
type_synonym point = "int \<times> int"
type_synonym contour = "point list"

definition shape :: "'p ndarray \<Rightarrow> nat \<times> nat" where
  "shape img = (rows img, cols img)"

definition np_zeros :: "nat \<times> nat \<Rightarrow> gray" where
  "np_zeros sh = (case sh of (r, c) \<Rightarrow> \<lparr>rows = r, cols = c, data = replicate (r * c) 0\<rparr>)"

text \<open>
  \<open>approx.reshape(4, 2)\<close> turns the \<open>(n, 1, 2)\<close> array of a contour into an \<open>(4, 2)\<close>
  array of the same points in the same order, and raises \<open>ValueError\<close> unless \<open>n = 4\<close>.
\<close>

definition reshape_4_2 :: "contour \<Rightarrow> error + point list" where
  "reshape_4_2 pts = (if length pts = 4 then Inr pts else Inl ValueError)"

section \<open>The image library\<close>

text \<open>
  The module is a sequence of calls into OpenCV, imutils and scikit-image.  The routines
  that work pixel by pixel are written out below; the others are parameters of the model,
  collected in one record.  \<open>otsu\<close> is the level that Otsu's method selects for an image, and
  \<open>drawn_pixels\<close> is the rasterisation behind \<open>cv2.drawContours\<close>: the (row, column)
  positions that drawing the given contours with the given thickness touches in an image of
  the given shape.  \<open>Rect_of\<close> is the \<open>cv::Rect\<close> that \<open>cv::boundingRect\<close> computes: four
  signed 32-bit integers \<open>(x, y, width, height)\<close>.
\<close>

datatype flag =
  COLOR_BGR2GRAY | ADAPTIVE_THRESH_GAUSSIAN_C | THRESH_BINARY | RETR_EXTERNAL | CHAIN_APPROX_SIMPLE

record cvlib =
  cvtColor :: "bgr \<Rightarrow> flag \<Rightarrow> gray"
  GaussianBlur :: "gray \<Rightarrow> nat \<times> nat \<Rightarrow> int \<Rightarrow> gray"
  adaptiveThreshold :: "gray \<Rightarrow> u8 \<Rightarrow> flag \<Rightarrow> flag \<Rightarrow> nat \<Rightarrow> int \<Rightarrow> gray"
  findContours :: "gray \<Rightarrow> flag \<Rightarrow> flag \<Rightarrow> contour list"
  contourArea :: "contour \<Rightarrow> pyfloat"
  arcLength :: "contour \<Rightarrow> bool \<Rightarrow> pyfloat"
  approxPolyDP :: "contour \<Rightarrow> pyfloat \<Rightarrow> bool \<Rightarrow> contour"
  Rect_of :: "contour \<Rightarrow> 32 word \<times> 32 word \<times> 32 word \<times> 32 word"
  drawn_pixels :: "nat \<times> nat \<Rightarrow> contour list \<Rightarrow> int \<Rightarrow> int \<Rightarrow> (nat \<times> nat) list"
  four_point_transform :: "gray \<Rightarrow> point list \<Rightarrow> gray"
  otsu :: "gray \<Rightarrow> u8"
  clear_border :: "gray \<Rightarrow> gray"

text \<open>\<open>cv2.boundingRect\<close> hands the four fields of the rectangle to Python as integers.\<close>

definition boundingRect :: "cvlib \<Rightarrow> contour \<Rightarrow> int \<times> int \<times> int \<times> int" where
  "boundingRect L pts = (case Rect_of L pts of (x, y, w, h) \<Rightarrow> (sint x, sint y, sint w, sint h))"

text \<open>\<open>cv2.bitwise_not\<close> inverts every bit of every pixel.\<close>

definition bitwise_not :: "gray \<Rightarrow> gray" where
  "bitwise_not src = src\<lparr>data := map (\<lambda>p. NOT p) (data src)\<rparr>"

text \<open>
  \<open>cv2.bitwise_and(src1, src2, mask=mask)\<close> allocates its result: the conjunction of the
  two sources where the mask is non-zero, and 0 elsewhere.
\<close>

definition bitwise_and :: "gray \<Rightarrow> gray \<Rightarrow> gray \<Rightarrow> gray" where
  "bitwise_and src1 src2 msk =
     src1\<lparr>data := map (\<lambda>(a, b, m). if m \<noteq> 0 then a AND b else 0)
                       (zip (data src1) (zip (data src2) (data msk)))\<rparr>"

text \<open>
  \<open>cv2.threshold(src, thresh, maxval, THRESH_BINARY_INV | THRESH_OTSU)\<close> ignores
  \<open>thresh\<close>, takes Otsu's level instead, and sends a pixel above the level to 0 and any other
  pixel to \<open>maxval\<close>.  It returns the level and the new image.
\<close>

definition threshold_BINARY_INV_OTSU :: "cvlib \<Rightarrow> gray \<Rightarrow> u8 \<Rightarrow> u8 \<Rightarrow> u8 \<times> gray" where
  "threshold_BINARY_INV_OTSU L src thresh maxval =
     (let t = otsu L src
      in (t, src\<lparr>data := map (\<lambda>p. if t < p then 0 else maxval) (data src)\<rparr>))"

text \<open>
  \<open>cv2.drawContours(img, cnts, idx, colour, thickness)\<close> writes \<open>colour\<close> into the image it
  is given, at the rasterised positions that lie inside the image.  The model returns the
  image after the call.
\<close>

definition paint :: "'p \<Rightarrow> 'p ndarray \<Rightarrow> nat \<times> nat \<Rightarrow> 'p ndarray" where
  "paint colour img rc =
     (case rc of (r, c) \<Rightarrow>
        if r < rows img \<and> c < cols img
        then img\<lparr>data := (data img)[r * cols img + c := colour]\<rparr>
        else img)"

definition drawContours ::
    "cvlib \<Rightarrow> 'p ndarray \<Rightarrow> contour list \<Rightarrow> int \<Rightarrow> 'p \<Rightarrow> int \<Rightarrow> 'p ndarray" where
  "drawContours L img cnts idx colour thickness =
     foldl (paint colour) img (drawn_pixels L (shape img) cnts idx thickness)"

section \<open>\<open>find_puzzle\<close>\<close>

text \<open>
  The test of the loop body on an approximated contour with 4 vertices: \<open>Inl\<close> when the
  division raises, otherwise whether the contour passes (\<open>keepDims and keepAspectRatio\<close>).
\<close>

definition passes_tests :: "cvlib \<Rightarrow> contour \<Rightarrow> error + bool" where
  "passes_tests L approx =
     (case boundingRect L approx of (x, y, w, h) \<Rightarrow>
        (case float_truediv (float_of_int w) (float_of_int h) of
           Inl e \<Rightarrow> Inl e
         | Inr aspectRatio \<Rightarrow>
             let keepDims = (45 < w \<and> 45 < h);
                 keepAspectRatio = (lit_0_8 \<le> aspectRatio \<and> aspectRatio \<le> lit_1_2)
             in Inr (keepDims \<and> keepAspectRatio)))"

text \<open>The polygon approximation of a contour, with a tolerance of \<open>0.01 * peri\<close>.\<close>

definition approximate :: "cvlib \<Rightarrow> contour \<Rightarrow> contour" where
  "approximate L c =
     (let peri = arcLength L c True
      in approxPolyDP L c (float_mul lit_0_01 peri) True)"

text \<open>
  The loop over the sorted contours.  It carries the caller's frame, which
  \<open>drawContours\<close> changes in place, and returns it with \<open>puzzle_cnt\<close> (\<open>None\<close> when the
  loop ran to its end without a \<open>break\<close>).
\<close>

fun find_loop :: "cvlib \<Rightarrow> bgr \<Rightarrow> contour list \<Rightarrow> bgr \<times> (error + contour option)" where
  "find_loop L frame [] = (frame, Inr None)"
| "find_loop L frame (c # cs) =
     (let approx = approximate L c
      in if length approx = 4
         then (case passes_tests L approx of
                 Inl e \<Rightarrow> (frame, Inl e)
               | Inr True \<Rightarrow>
                   (let puzzle_cnt = approx
                    in (drawContours L frame [puzzle_cnt] (- 1) (0, 255, 0) 2,
                        Inr (Some puzzle_cnt)))
               | Inr False \<Rightarrow> find_loop L frame cs)
         else find_loop L frame cs)"

text \<open>
  The grayscale image, the inverted threshold map and the contours of the frame, sorted as
  the loop receives them.
\<close>

definition frame_gray :: "cvlib \<Rightarrow> bgr \<Rightarrow> gray" where
  "frame_gray L frame = cvtColor L frame COLOR_BGR2GRAY"

definition frame_thresh :: "cvlib \<Rightarrow> bgr \<Rightarrow> gray" where
  "frame_thresh L frame =
     (let gray = frame_gray L frame;
          blurred = GaussianBlur L gray (7, 7) 3;
          thresh = adaptiveThreshold L blurred 255 ADAPTIVE_THRESH_GAUSSIAN_C THRESH_BINARY 11 2
      in bitwise_not thresh)"

definition frame_contours :: "cvlib \<Rightarrow> bgr \<Rightarrow> contour list" where
  "frame_contours L frame =
     (let thresh = frame_thresh L frame;
          cnts = findContours L thresh RETR_EXTERNAL CHAIN_APPROX_SIMPLE
      in py_sorted_reverse (contourArea L) cnts)"

text \<open>
  \<open>find_puzzle\<close> returns the frame as the call leaves it, and either the error raised or the
  top-down view.
\<close>

definition find_puzzle :: "cvlib \<Rightarrow> bgr \<Rightarrow> bgr \<times> (error + gray)" where
  "find_puzzle L frame =
     (let gray = frame_gray L frame;
          cnts = frame_contours L frame
      in case find_loop L frame cnts of
           (frame', Inl e) \<Rightarrow> (frame', Inl e)
         | (frame', Inr None) \<Rightarrow> (frame', Inl PuzzleNotFoundError)
         | (frame', Inr (Some puzzle_cnt)) \<Rightarrow>
             (case reshape_4_2 puzzle_cnt of
                Inl e \<Rightarrow> (frame', Inl e)
              | Inr pts \<Rightarrow> (frame', Inr (four_point_transform L gray pts))))"

section \<open>\<open>extract_digit\<close>\<close>

text \<open>The thresholded cell after \<open>clear_border\<close>, and its contours.\<close>

definition cell_thresh :: "cvlib \<Rightarrow> gray \<Rightarrow> gray" where
  "cell_thresh L cell =
     (let thresh = snd (threshold_BINARY_INV_OTSU L cell 0 255)
      in clear_border L thresh)"

definition cell_contours :: "cvlib \<Rightarrow> gray \<Rightarrow> contour list" where
  "cell_contours L cell = findContours L (cell_thresh L cell) RETR_EXTERNAL CHAIN_APPROX_SIMPLE"

text \<open>
  \<open>extract_digit\<close> hands \<open>cell\<close> to \<open>cv2.threshold\<close> only, which writes into a new array.
  Like \<open>find_puzzle\<close>, the model returns the caller's array as the call leaves it, and the
  pair that the function returns (or the error raised).
\<close>

definition extract_digit :: "cvlib \<Rightarrow> gray \<Rightarrow> gray \<times> (error + (gray option \<times> bool))" where
  "extract_digit L cell =
     (let empty = True;
          thresh = cell_thresh L cell;
          cnts = cell_contours L cell
      in if length cnts = 0 then (cell, Inr (None, empty))
         else let empty = False
              in case py_max (contourArea L) cnts of
                   Inl e \<Rightarrow> (cell, Inl e)
                 | Inr c \<Rightarrow>
                     let mask = np_zeros (shape thresh);
                         mask = drawContours L mask [c] (- 1) 255 (- 1);
                         digit = bitwise_and thresh thresh mask
                     in (cell, Inr (Some digit, empty)))"

section \<open>The conditions of the specification\<close>

text \<open>
  A contour qualifies when its polygon approximation has exactly 4 vertices and the bounding
  box of the approximation is more than 45 pixels wide and high, with a ratio of width to
  height between 0.8 and 1.2.  The ratio and the bounds are the exact numbers here, not
  floats.
\<close>

definition rect_width :: "cvlib \<Rightarrow> contour \<Rightarrow> int" where
  "rect_width L pts = (case boundingRect L pts of (x, y, w, h) \<Rightarrow> w)"

definition rect_height :: "cvlib \<Rightarrow> contour \<Rightarrow> int" where
  "rect_height L pts = (case boundingRect L pts of (x, y, w, h) \<Rightarrow> h)"

definition aspect_ratio :: "cvlib \<Rightarrow> contour \<Rightarrow> rat" where
  "aspect_ratio L pts = of_int (rect_width L pts) / of_int (rect_height L pts)"

definition box_ok :: "cvlib \<Rightarrow> contour \<Rightarrow> bool" where
  "box_ok L pts \<longleftrightarrow>
     45 < rect_width L pts \<and> 45 < rect_height L pts \<and>
     4 / 5 \<le> aspect_ratio L pts \<and> aspect_ratio L pts \<le> 6 / 5"

definition qualifies :: "cvlib \<Rightarrow> contour \<Rightarrow> bool" where
  "qualifies L c \<longleftrightarrow> length (approximate L c) = 4 \<and> box_ok L (approximate L c)"

text \<open>
  What the proofs below ask of the library.  A bounding box of a polygon with 4 vertices has
  a height other than 0 (OpenCV's boxes of non-empty point sets are at least one pixel
  high).  \<open>clear_border\<close> only sets pixels to 0; on an image whose pixels all have the same
  value it leaves no foreground, since the one region there is touches the border.
  \<open>findContours\<close> finds no contour in an image without foreground.
\<close>

definition boxes_have_height :: "cvlib \<Rightarrow> contour list \<Rightarrow> bool" where
  "boxes_have_height L cs \<longleftrightarrow>
     (\<forall>c \<in> set cs. length (approximate L c) = 4 \<longrightarrow> rect_height L (approximate L c) \<noteq> 0)"

definition clear_border_only_clears :: "cvlib \<Rightarrow> bool" where
  "clear_border_only_clears L \<longleftrightarrow>
     (\<forall>img. set (data (clear_border L img)) \<subseteq> insert 0 (set (data img)))"

definition clear_border_clears_uniform :: "cvlib \<Rightarrow> bool" where
  "clear_border_clears_uniform L \<longleftrightarrow>
     (\<forall>img v. set (data img) \<subseteq> {v} \<longrightarrow> set (data (clear_border L img)) \<subseteq> {0})"

definition no_contours_without_foreground :: "cvlib \<Rightarrow> bool" where
  "no_contours_without_foreground L \<longleftrightarrow>
     (\<forall>img. set (data img) \<subseteq> {0} \<longrightarrow> findContours L img RETR_EXTERNAL CHAIN_APPROX_SIMPLE = [])"

section \<open>A small library and sample images\<close>

text \<open>
  A stand-in for the library, to run the model on concrete images: grayscale is the green
  channel, blurring does nothing, thresholding is global, and the contours of an image with
  foreground are three polygons placed by its shape.  Bounding boxes and areas are the real
  ones; the perimeter is measured along the axes; a filled contour is drawn as its bounding
  box and an outline as its vertices; \<open>clear_border\<close> clears the whole image as soon as some
  foreground touches the border.
\<close>

definition closing_edges :: "contour \<Rightarrow> (point \<times> point) list" where
  "closing_edges pts = (case pts of [] \<Rightarrow> [] | p # rest \<Rightarrow> zip pts (rest @ [p]))"

definition ref_area :: "contour \<Rightarrow> pyfloat" where
  "ref_area pts =
     of_int \<bar>sum_list (map (\<lambda>((x1, y1), (x2, y2)). x1 * y2 - x2 * y1) (closing_edges pts))\<bar> / 2"

definition ref_length :: "contour \<Rightarrow> bool \<Rightarrow> pyfloat" where
  "ref_length pts is_closed =
     of_int (sum_list (map (\<lambda>((x1, y1), (x2, y2)). \<bar>x2 - x1\<bar> + \<bar>y2 - y1\<bar>) (closing_edges pts)))"

definition ref_box :: "contour \<Rightarrow> int \<times> int \<times> int \<times> int" where
  "ref_box pts =
     (case pts of
        [] \<Rightarrow> (0, 0, 0, 0)
      | (px, py) # rest \<Rightarrow>
          let x0 = fold min (map fst rest) px; x1 = fold max (map fst rest) px;
              y0 = fold min (map snd rest) py; y1 = fold max (map snd rest) py
          in (x0, y0, x1 - x0 + 1, y1 - y0 + 1))"

definition ref_rect :: "contour \<Rightarrow> 32 word \<times> 32 word \<times> 32 word \<times> 32 word" where
  "ref_rect pts =
     (case ref_box pts of (x, y, w, h) \<Rightarrow>
        (word_of_int x, word_of_int y, word_of_int w, word_of_int h))"

definition ref_pixels :: "nat \<times> nat \<Rightarrow> contour list \<Rightarrow> int \<Rightarrow> int \<Rightarrow> (nat \<times> nat) list" where
  "ref_pixels sh cnts idx thickness =
     (if thickness < 0
      then concat (map (\<lambda>pts. case ref_box pts of (x, y, w, h) \<Rightarrow>
             concat (map (\<lambda>r. map (\<lambda>c. (nat r, nat c)) [x..x + w - 1]) [y..y + h - 1])) cnts)
      else map (\<lambda>(x, y). (nat y, nat x)) (concat cnts))"

definition ref_contours :: "gray \<Rightarrow> flag \<Rightarrow> flag \<Rightarrow> contour list" where
  "ref_contours img mode method =
     (if list_all (\<lambda>p. p = 0) (data img) then []
      else let r = int (rows img); c = int (cols img)
           in [ [(0, 0), (2, 0), (0, 2)],
               [(1, 1), (c - 2, 1), (c - 2, r - 2), (1, r - 2)],
               [(0, 0), (c - 1, 0), (c - 1, r - 1), (c div 2, r - 1), (0, r - 1)] ])"

definition on_border :: "'p ndarray \<Rightarrow> nat \<Rightarrow> bool" where
  "on_border img i \<longleftrightarrow>
     (let r = i div cols img; c = i mod cols img
      in r = 0 \<or> r + 1 = rows img \<or> c = 0 \<or> c + 1 = cols img)"

definition ref_clear_border :: "gray \<Rightarrow> gray" where
  "ref_clear_border img =
     (if list_ex (\<lambda>i. on_border img i \<and> data img ! i \<noteq> 0) [0..<length (data img)]
      then img\<lparr>data := map (\<lambda>p. 0) (data img)\<rparr>
      else img)"

definition cv_ref :: cvlib where
  "cv_ref =
     \<lparr>cvtColor = (\<lambda>img code.
         \<lparr>rows = rows img, cols = cols img, data = map (\<lambda>(b, g, r). g) (data img)\<rparr>),
      GaussianBlur = (\<lambda>img ksize sigma. img),
      adaptiveThreshold = (\<lambda>img maxval method type blockSize C.
         img\<lparr>data := map (\<lambda>p. if p < 128 then 0 else maxval) (data img)\<rparr>),
      findContours = ref_contours,
      contourArea = ref_area,
      arcLength = ref_length,
      approxPolyDP = (\<lambda>c epsilon is_closed. c),
      Rect_of = ref_rect,
      drawn_pixels = ref_pixels,
      four_point_transform = (\<lambda>img pts. img),
      otsu = (\<lambda>img. 127),
      clear_border = ref_clear_border\<rparr>"

text \<open>
  A dark 50 by 50 frame, a dark 12 by 12 frame, a 5 by 5 cell with a dark stroke in its
  middle, and a blank cell.
\<close>

definition frame0 :: bgr where
  "frame0 = \<lparr>rows = 50, cols = 50, data = replicate 2500 (0, 0, 0)\<rparr>"

definition frame1 :: bgr where
  "frame1 = \<lparr>rows = 12, cols = 12, data = replicate 144 (0, 0, 0)\<rparr>"

definition cell0 :: gray where
  "cell0 = \<lparr>rows = 5, cols = 5, data =
     [200, 200, 200, 200, 200,
      200, 200,  10, 200, 200,
      200, 200,  10, 200, 200,
      200, 200,  10, 200, 200,
      200, 200, 200, 200, 200]\<rparr>"

definition cell_blank :: gray where
  "cell_blank = \<lparr>rows = 5, cols = 5, data = replicate 25 200\<rparr>"

section \<open>Rounding\<close>

lemma pow2_powi: "pow2 e = 2 powi e"
  by (simp add: pow2_def power_int_def inverse_eq_divide power_one_over)

lemma pow2_pos: "0 < pow2 e"
  by (simp add: pow2_powi zero_less_power_int)

lemma pow2_add: "pow2 (a + b) = pow2 a * pow2 b"
  by (simp add: pow2_powi power_int_add)

lemma pow2_nat: "pow2 (int n) = 2 ^ n"
  by (simp add: pow2_def)

lemma pow2_mono: "a \<le> b \<Longrightarrow> pow2 a \<le> pow2 b"
  by (simp add: pow2_powi power_int_increasing)

lemma round_half_even_err: "\<bar>of_int (round_half_even x) - x\<bar> \<le> 1 / 2"
proof -
  have "of_int \<lfloor>x\<rfloor> \<le> x" "x < of_int \<lfloor>x\<rfloor> + 1" by linarith+
  then show ?thesis
    by (auto simp: round_half_even_def Let_def abs_le_iff)
qed

lemma round_half_even_of_int: "round_half_even (of_int z) = z"
  by (simp add: round_half_even_def)

lemma binade_bounds:
  assumes "0 < a"
  shows "pow2 (binade a) \<le> a \<and> a < pow2 (binade a + 1)"
proof -
  obtain p q where pq: "quotient_of a = (p, q)" by (cases "quotient_of a")
  have q: "0 < q" using pq quotient_of_denom_pos by blast
  have a: "a = of_int p / of_int q" using pq quotient_of_div by blast
  have p: "0 < p" using assms q a
    by (simp add: zero_less_divide_iff)
  define k where "k = bitlen p - bitlen q"
  have bp: "2 ^ nat (bitlen p - 1) \<le> p" "p < 2 ^ nat (bitlen p)" using bitlen_bounds[OF p] by auto
  have bq: "2 ^ nat (bitlen q - 1) \<le> q" "q < 2 ^ nat (bitlen q)" using bitlen_bounds[OF q] by auto
  have bp1: "1 \<le> bitlen p" using p bitlen_eq_zero_iff[of p] bitlen_nonneg[of p] by linarith
  have bq1: "1 \<le> bitlen q" using q bitlen_eq_zero_iff[of q] bitlen_nonneg[of q] by linarith
  have P1: "pow2 (bitlen p - 1) \<le> of_int p"
  proof -
    have "pow2 (bitlen p - 1) = pow2 (int (nat (bitlen p - 1)))" using bp1 by simp
    also have "\<dots> = of_int (2 ^ nat (bitlen p - 1))" by (simp only: pow2_nat) simp
    also have "\<dots> \<le> of_int p" using bp(1) by (simp only: of_int_le_iff)
    finally show ?thesis .
  qed
  have P2: "of_int p < pow2 (bitlen p)"
  proof -
    have "(of_int p :: rat) < of_int (2 ^ nat (bitlen p))" using bp(2) by (simp only: of_int_less_iff)
    also have "\<dots> = pow2 (int (nat (bitlen p)))" by (simp only: pow2_nat) simp
    also have "\<dots> = pow2 (bitlen p)" using bp1 by simp
    finally show ?thesis .
  qed
  have Q1: "pow2 (bitlen q - 1) \<le> of_int q"
  proof -
    have "pow2 (bitlen q - 1) = pow2 (int (nat (bitlen q - 1)))" using bq1 by simp
    also have "\<dots> = of_int (2 ^ nat (bitlen q - 1))" by (simp only: pow2_nat) simp
    also have "\<dots> \<le> of_int q" using bq(1) by (simp only: of_int_le_iff)
    finally show ?thesis .
  qed
  have Q2: "of_int q < pow2 (bitlen q)"
  proof -
    have "(of_int q :: rat) < of_int (2 ^ nat (bitlen q))" using bq(2) by (simp only: of_int_less_iff)
    also have "\<dots> = pow2 (int (nat (bitlen q)))" by (simp only: pow2_nat) simp
    also have "\<dots> = pow2 (bitlen q)" using bq1 by simp
    finally show ?thesis .
  qed
  have qpos: "(0::rat) < of_int q" using q by simp
  have lo: "pow2 (k - 1) \<le> a"
  proof -
    have "pow2 (k - 1) * pow2 (bitlen q) = pow2 (bitlen p - 1)"
      unfolding k_def pow2_add[symmetric] by simp
    then have "pow2 (k - 1) * of_int q \<le> pow2 (bitlen p - 1)"
      using Q2 pow2_pos[of "k - 1"]
      by (metis less_eq_rat_def mult_le_cancel_left_pos)
    then have "pow2 (k - 1) * of_int q \<le> of_int p" using P1 by linarith
    then show ?thesis using qpos by (simp add: a pos_le_divide_eq)
  qed
  have hi: "a < pow2 (k + 1)"
  proof -
    have "pow2 (k + 1) * pow2 (bitlen q - 1) = pow2 (bitlen p)"
      unfolding k_def pow2_add[symmetric] by simp
    then have "pow2 (bitlen p) \<le> pow2 (k + 1) * of_int q"
      using Q1 pow2_pos[of "k + 1"]
      by (metis mult_le_cancel_left_pos)
    then have "of_int p < pow2 (k + 1) * of_int q" using P2 by linarith
    then show ?thesis using qpos by (simp add: a pos_divide_less_eq)
  qed
  have b: "binade a = (if pow2 k \<le> a then k else k - 1)"
    by (simp add: binade_def pq k_def Let_def)
  show ?thesis
  proof (cases "pow2 k \<le> a")
    case True
    then show ?thesis using b hi by simp
  next
    case False
    then show ?thesis using b lo by simp
  qed
qed


lemma rn_pos_eq:
  assumes "0 < x"
  shows "rn x = of_int (round_half_even (x / pow2 (binade x - 52))) * pow2 (binade x - 52)"
  using assms by (simp add: rn_def Let_def)

lemma rn_err:
  assumes "0 < x"
  shows "\<bar>rn x - x\<bar> \<le> x / 2 ^ 53"
proof -
  define u where "u = pow2 (binade x - 52)"
  define r where "r = round_half_even (x / u)"
  have u: "0 < u" by (simp add: u_def pow2_pos)
  have rn: "rn x = of_int r * u" using rn_pos_eq[OF assms] by (simp add: r_def u_def)
  have "\<bar>of_int r - x / u\<bar> \<le> 1 / 2" unfolding r_def by (rule round_half_even_err)
  then have "\<bar>of_int r - x / u\<bar> * u \<le> 1 / 2 * u" using u by (simp only: mult_le_cancel_right_pos)
  moreover have "\<bar>of_int r - x / u\<bar> * u = \<bar>of_int r * u - x\<bar>"
  proof -
    have "\<bar>of_int r - x / u\<bar> * u = \<bar>(of_int r - x / u) * u\<bar>" using u by (simp add: abs_mult)
    also have "(of_int r - x / u) * u = of_int r * u - x" using u by (simp add: left_diff_distrib)
    finally show ?thesis .
  qed
  ultimately have e: "\<bar>rn x - x\<bar> \<le> u / 2" by (simp add: rn)
  have "pow2 (binade x) = u * pow2 52" unfolding u_def pow2_add[symmetric] by simp
  also have "pow2 52 = 2 ^ 52" using pow2_nat[of 52] by simp
  finally have "u * 2 ^ 52 \<le> x" using binade_bounds[OF assms] by simp
  then have "u / 2 \<le> x / 2 ^ 53" by simp
  with e show ?thesis by linarith
qed

lemma round_half_even_nonneg: "0 \<le> x \<Longrightarrow> 0 \<le> round_half_even x"
  by (auto simp: round_half_even_def Let_def)

lemma rn_nonpos:
  assumes "x \<le> 0"
  shows "rn x \<le> 0"
proof (cases "x = 0")
  case True
  then show ?thesis by (simp add: rn_def)
next
  case False
  then have x: "x < 0" using assms by simp
  define u where "u = pow2 (binade \<bar>x\<bar> - 52)"
  have u: "0 < u" by (simp add: u_def pow2_pos)
  have "0 \<le> \<bar>x\<bar> / u" using u by simp
  then have "0 \<le> round_half_even (\<bar>x\<bar> / u)" by (rule round_half_even_nonneg)
  then have "0 \<le> (of_int (round_half_even (\<bar>x\<bar> / u)) :: rat) * u" using u by simp
  moreover have "rn x = - (of_int (round_half_even (\<bar>x\<bar> / u)) * u)"
    using x by (simp add: rn_def Let_def u_def)
  ultimately show ?thesis by linarith
qed

lemma rn_of_int_pos:
  assumes "0 < n" "n < 2 ^ 53"
  shows "rn (of_int n) = of_int n"
proof -
  define x :: rat where "x = of_int n"
  have x: "0 < x" using assms by (simp add: x_def)
  define e where "e = binade x"
  have "pow2 e \<le> x" using binade_bounds[OF x] by (simp add: e_def)
  also have "x < 2 ^ 53" using assms(2) unfolding x_def
    by (metis of_int_less_iff of_int_numeral of_int_power)
  also have "(2::rat) ^ 53 = pow2 53" using pow2_nat[of 53] by simp
  finally have "pow2 e < pow2 53" .
  then have e: "e \<le> 52" using pow2_mono[of 53 e] by (cases "e \<le> 52") auto
  define k where "k = nat (52 - e)"
  have k: "pow2 (e - 52) * 2 ^ k = 1"
  proof -
    have "pow2 (e - 52) * pow2 (int k) = pow2 0" unfolding pow2_add[symmetric] k_def using e by simp
    then show ?thesis by (simp add: pow2_nat) (simp add: pow2_def)
  qed
  have upos: "0 < pow2 (e - 52)" by (rule pow2_pos)
  have m: "x / pow2 (e - 52) = of_int (n * 2 ^ k)"
  proof -
    have "x = of_int (n * 2 ^ k) * pow2 (e - 52)" using k by (simp add: x_def mult.assoc mult.commute[of "2 ^ k"])
    then show ?thesis using upos by (simp add: field_simps)
  qed
  have "rn x = of_int (round_half_even (x / pow2 (e - 52))) * pow2 (e - 52)"
    using rn_pos_eq[OF x] by (simp add: e_def)
  also have "\<dots> = of_int (n * 2 ^ k) * pow2 (e - 52)" by (simp only: m round_half_even_of_int)
  also have "\<dots> = x" using k by (simp add: x_def mult.assoc mult.commute[of "2 ^ k"])
  finally show ?thesis by (simp add: x_def)
qed

lemma rn_neg: "rn (- x) = - rn x"
  by (simp add: rn_def Let_def)

lemma float_of_int_exact:
  assumes "\<bar>n\<bar> < 2 ^ 53"
  shows "float_of_int n = of_int n"
proof -
  consider "n = 0" | "0 < n" | "n < 0" by linarith
  then show ?thesis
  proof cases
    case 1
    then show ?thesis by (simp add: float_of_int_def rn_def)
  next
    case 2
    then show ?thesis using assms rn_of_int_pos[of n] by (simp add: float_of_int_def)
  next
    case 3
    then have "rn (of_int (- n)) = of_int (- n)" using assms by (intro rn_of_int_pos) auto
    then show ?thesis using rn_neg[of "of_int n"] by (simp add: float_of_int_def)
  qed
qed

lemma lit_0_8_val: "lit_0_8 = 3602879701896397 / 4503599627370496"
  unfolding lit_0_8_def by code_simp

lemma lit_1_2_val: "lit_1_2 = 5404319552844595 / 4503599627370496"
  unfolding lit_1_2_def by code_simp


lemma rn_lower:
  assumes "0 < x"
  shows "x * (1 - 1 / 2 ^ 53) \<le> rn x"
proof -
  have "x * (1 - 1 / 2 ^ 53) = x - x / 2 ^ 53" by (simp add: algebra_simps)
  then show ?thesis using rn_err[OF assms] by linarith
qed

lemma rn_upper:
  assumes "0 < x"
  shows "rn x \<le> x * (1 + 1 / 2 ^ 53)"
proof -
  have "x * (1 + 1 / 2 ^ 53) = x + x / 2 ^ 53" by (simp add: algebra_simps)
  then show ?thesis using rn_err[OF assms] by linarith
qed

lemma ratio_gap_ge:
  fixes w h :: int
  assumes h: "0 < h" "h < 2 ^ 31" and lt: "a * h < b * w" and b: "0 < b"
  shows "of_int a / of_int b + 1 / (of_int b * 2 ^ 31) \<le> (of_int w / of_int h :: rat)"
proof -
  have hp: "(0::rat) < of_int h" and bp: "(0::rat) < of_int b" using h b by simp_all
  have "a * h + 1 \<le> b * w" using lt by simp
  then have "(of_int (a * h + 1) :: rat) \<le> of_int (b * w)" by (simp only: of_int_le_iff)
  then have 1: "(of_int a * of_int h + 1 :: rat) \<le> of_int b * of_int w" by simp
  have "(of_int h :: rat) < of_int (2 ^ 31)" using h(2) by (simp only: of_int_less_iff)
  then have h31: "(of_int h :: rat) \<le> 2 ^ 31" by simp
  have "of_int a / of_int b + 1 / (of_int b * 2 ^ 31) \<le> (of_int a / of_int b + 1 / (of_int b * of_int h) :: rat)"
    using h31 hp bp by (simp add: frac_le)
  also have "\<dots> = (of_int a * of_int h + 1) / (of_int b * of_int h)"
    using hp bp by (simp add: field_simps)
  also have "\<dots> \<le> (of_int b * of_int w) / (of_int b * of_int h)"
    using hp bp by (intro divide_right_mono[OF 1]) simp
  also have "\<dots> = of_int w / of_int h" using bp by simp
  finally show ?thesis .
qed

lemma ratio_gap_le:
  fixes w h :: int
  assumes h: "0 < h" "h < 2 ^ 31" and lt: "b * w < a * h" and b: "0 < b"
  shows "(of_int w / of_int h :: rat) \<le> of_int a / of_int b - 1 / (of_int b * 2 ^ 31)"
proof -
  have hp: "(0::rat) < of_int h" and bp: "(0::rat) < of_int b" using h b by simp_all
  have "b * w \<le> a * h - 1" using lt by simp
  then have "(of_int (b * w) :: rat) \<le> of_int (a * h - 1)" by (simp only: of_int_le_iff)
  then have 1: "(of_int b * of_int w :: rat) \<le> of_int a * of_int h - 1" by simp
  have "(of_int h :: rat) < of_int (2 ^ 31)" using h(2) by (simp only: of_int_less_iff)
  then have h31: "(of_int h :: rat) \<le> 2 ^ 31" by simp
  have "of_int w / of_int h = (of_int b * of_int w) / (of_int b * of_int h :: rat)" using bp by simp
  also have "\<dots> \<le> (of_int a * of_int h - 1) / (of_int b * of_int h)"
    using hp bp by (intro divide_right_mono[OF 1]) simp
  also have "\<dots> = of_int a / of_int b - 1 / (of_int b * of_int h)"
    using hp bp by (simp add: field_simps)
  also have "\<dots> \<le> of_int a / of_int b - 1 / (of_int b * 2 ^ 31)"
    using h31 hp bp by (simp add: frac_le)
  finally show ?thesis .
qed

lemma rn_ge_lit_0_8:
  fixes w h :: int
  assumes h: "0 < h" "h < 2 ^ 31"
  shows "lit_0_8 \<le> rn (of_int w / of_int h) \<longleftrightarrow> 4 * h \<le> 5 * w"
proof -
  define x :: rat where "x = of_int w / of_int h"
  have hp: "(0::rat) < of_int h" using h by simp
  consider "4 * h = 5 * w" | "4 * h < 5 * w" | "5 * w < 4 * h" by linarith
  then show ?thesis
  proof cases
    case 1
    then have "(of_int (4 * h) :: rat) = of_int (5 * w)" by simp
    then have "x = 4 / 5" using hp by (simp add: x_def field_simps)
    then have "rn x = lit_0_8" unfolding lit_0_8_def by (rule arg_cong)
    then have "lit_0_8 \<le> rn (of_int w / of_int h)" unfolding x_def by simp
    then show ?thesis using 1 by simp
  next
    case 2
    have g: "4 / 5 + 1 / (5 * 2 ^ 31) \<le> x"
      using ratio_gap_ge[OF h, of 4 5 w] 2 by (simp add: x_def)
    then have xp: "0 < x" by simp
    have "lit_0_8 \<le> x * (1 - 1 / 2 ^ 53)" using g by (simp add: lit_0_8_val)
    then show ?thesis using rn_lower[OF xp] 2 by (simp add: x_def)
  next
    case 3
    have g: "x \<le> 4 / 5 - 1 / (5 * 2 ^ 31)"
      using ratio_gap_le[OF h, of 5 w 4] 3 by (simp add: x_def)
    have "rn x < lit_0_8"
    proof (cases "0 < x")
      case True
      have "x * (1 + 1 / 2 ^ 53) < lit_0_8" using g by (simp add: lit_0_8_val)
      then show ?thesis using rn_upper[OF True] by simp
    next
      case False
      then have "rn x \<le> 0" by (intro rn_nonpos) simp
      then show ?thesis by (simp add: lit_0_8_val)
    qed
    then show ?thesis using 3 by (simp add: x_def)
  qed
qed

lemma rn_le_lit_1_2:
  fixes w h :: int
  assumes h: "0 < h" "h < 2 ^ 31"
  shows "rn (of_int w / of_int h) \<le> lit_1_2 \<longleftrightarrow> 5 * w \<le> 6 * h"
proof -
  define x :: rat where "x = of_int w / of_int h"
  have hp: "(0::rat) < of_int h" using h by simp
  consider "5 * w = 6 * h" | "6 * h < 5 * w" | "5 * w < 6 * h" by linarith
  then show ?thesis
  proof cases
    case 1
    then have "(of_int (5 * w) :: rat) = of_int (6 * h)" by simp
    then have "x = 6 / 5" using hp by (simp add: x_def field_simps)
    then have "rn x = lit_1_2" unfolding lit_1_2_def by (rule arg_cong)
    then have "rn (of_int w / of_int h) \<le> lit_1_2" unfolding x_def by simp
    then show ?thesis using 1 by simp
  next
    case 2
    have g: "6 / 5 + 1 / (5 * 2 ^ 31) \<le> x"
      using ratio_gap_ge[OF h, of 6 5 w] 2 by (simp add: x_def)
    then have xp: "0 < x" by simp
    have "lit_1_2 < x * (1 - 1 / 2 ^ 53)" using g by (simp add: lit_1_2_val)
    then show ?thesis using rn_lower[OF xp] 2 by (simp add: x_def)
  next
    case 3
    have g: "x \<le> 6 / 5 - 1 / (5 * 2 ^ 31)"
      using ratio_gap_le[OF h, of 5 w 6] 3 by (simp add: x_def)
    have "rn x \<le> lit_1_2"
    proof (cases "0 < x")
      case True
      have "x * (1 + 1 / 2 ^ 53) \<le> lit_1_2" using g by (simp add: lit_1_2_val)
      then show ?thesis using rn_upper[OF True] by simp
    next
      case False
      then have "rn x \<le> 0" by (intro rn_nonpos) simp
      then show ?thesis by (simp add: lit_1_2_val)
    qed
    then show ?thesis using 3 by (simp add: x_def)
  qed
qed

section \<open>The loop of \<open>find_puzzle\<close>\<close>

lemma boundingRect_fields:
  "boundingRect L a = (x, y, w, h) \<Longrightarrow> rect_width L a = w \<and> rect_height L a = h"
  by (simp add: rect_width_def rect_height_def)

lemma boundingRect_range:
  assumes "boundingRect L a = (x, y, w, h)"
  shows "- (2 ^ 31) \<le> w \<and> w < 2 ^ 31 \<and> - (2 ^ 31) \<le> h \<and> h < 2 ^ 31"
proof -
  obtain x' y' w' h' where r: "Rect_of L a = (x', y', w', h')" by (cases "Rect_of L a") auto
  have "w = sint w'" "h = sint h'" using assms r by (simp_all add: boundingRect_def)
  then show ?thesis using sint_lt[of w'] sint_ge[of w'] sint_lt[of h'] sint_ge[of h'] by simp
qed

lemma passes_tests_zero:
  assumes "rect_height L a = 0"
  shows "passes_tests L a = Inl ZeroDivisionError"
proof -
  obtain x y w h where r: "boundingRect L a = (x, y, w, h)" by (cases "boundingRect L a") auto
  then have "h = 0" using assms by (simp add: rect_height_def)
  then show ?thesis by (simp add: passes_tests_def r float_truediv_def float_of_int_def rn_def)
qed

lemma passes_tests_nonzero:
  assumes "rect_height L a \<noteq> 0"
  shows "passes_tests L a = Inr (box_ok L a)"
proof -
  obtain x y w h where r: "boundingRect L a = (x, y, w, h)" by (cases "boundingRect L a") auto
  have wh: "rect_width L a = w" "rect_height L a = h" using r by (simp_all add: rect_width_def rect_height_def)
  have h0: "h \<noteq> 0" using assms wh by simp
  have rg: "- (2 ^ 31) \<le> w" "w < 2 ^ 31" "- (2 ^ 31) \<le> h" "h < 2 ^ 31"
    using boundingRect_range[OF r] by auto
  have fw: "float_of_int w = of_int w" using rg by (intro float_of_int_exact) simp
  have fh: "float_of_int h = of_int h" using rg by (intro float_of_int_exact) simp
  have div: "float_truediv (float_of_int w) (float_of_int h) = Inr (rn (of_int w / of_int h))"
    using h0 by (simp add: float_truediv_def fw fh)
  have pt: "passes_tests L a =
      Inr ((45 < w \<and> 45 < h) \<and> lit_0_8 \<le> rn (of_int w / of_int h) \<and> rn (of_int w / of_int h) \<le> lit_1_2)"
    by (simp add: passes_tests_def r div)
  show ?thesis
  proof (cases "45 < h")
    case True
    then have hp: "0 < h" by simp
    have "lit_0_8 \<le> rn (of_int w / of_int h) \<longleftrightarrow> 4 * h \<le> 5 * w"
      using rn_ge_lit_0_8[OF hp rg(4)] .
    moreover have "rn (of_int w / of_int h) \<le> lit_1_2 \<longleftrightarrow> 5 * w \<le> 6 * h"
      using rn_le_lit_1_2[OF hp rg(4)] .
    moreover have "(4 / 5 :: rat) \<le> of_int w / of_int h \<longleftrightarrow> 4 * h \<le> 5 * w"
    proof -
      have "(4 / 5 :: rat) \<le> of_int w / of_int h \<longleftrightarrow> (of_int (4 * h) :: rat) \<le> of_int (5 * w)"
        using hp by (simp add: field_simps)
      then show ?thesis by (simp only: of_int_le_iff)
    qed
    moreover have "of_int w / of_int h \<le> (6 / 5 :: rat) \<longleftrightarrow> 5 * w \<le> 6 * h"
    proof -
      have "of_int w / of_int h \<le> (6 / 5 :: rat) \<longleftrightarrow> (of_int (5 * w) :: rat) \<le> of_int (6 * h)"
        using hp by (simp add: field_simps)
      then show ?thesis by (simp only: of_int_le_iff)
    qed
    ultimately show ?thesis
      by (simp add: pt box_ok_def aspect_ratio_def wh)
  next
    case False
    then show ?thesis by (simp add: pt box_ok_def wh)
  qed
qed

lemma box_ok_height: "box_ok L a \<Longrightarrow> rect_height L a \<noteq> 0"
  by (auto simp: box_ok_def)

lemma find_loop_step:
  "find_loop L frame (c # cs) =
     (if length (approximate L c) = 4
      then (if rect_height L (approximate L c) = 0 then (frame, Inl ZeroDivisionError)
            else if box_ok L (approximate L c)
            then (drawContours L frame [approximate L c] (- 1) (0, 255, 0) 2,
                  Inr (Some (approximate L c)))
            else find_loop L frame cs)
      else find_loop L frame cs)"
  by (simp add: Let_def passes_tests_zero passes_tests_nonzero)

lemma find_loop_find:
  assumes "\<forall>p \<in> set (takeWhile (\<lambda>c. \<not> qualifies L c) cs).
             length (approximate L p) = 4 \<longrightarrow> rect_height L (approximate L p) \<noteq> 0"
  shows "find_loop L frame cs =
     (case find (qualifies L) cs of
        None \<Rightarrow> (frame, Inr None)
      | Some c \<Rightarrow> (drawContours L frame [approximate L c] (- 1) (0, 255, 0) 2,
                   Inr (Some (approximate L c))))"
  using assms
proof (induction cs)
  case Nil
  then show ?case by simp
next
  case (Cons c cs)
  show ?case
  proof (cases "qualifies L c")
    case True
    then show ?thesis
      by (simp add: find_loop_step del: find_loop.simps) (auto simp: qualifies_def dest: box_ok_height)
  next
    case False
    then have ih: "find_loop L frame cs =
       (case find (qualifies L) cs of
          None \<Rightarrow> (frame, Inr None)
        | Some c \<Rightarrow> (drawContours L frame [approximate L c] (- 1) (0, 255, 0) 2,
                     Inr (Some (approximate L c))))"
      using Cons by simp
    have nz: "length (approximate L c) = 4 \<longrightarrow> rect_height L (approximate L c) \<noteq> 0"
      using Cons.prems False by simp
    show ?thesis
      using False nz by (simp add: find_loop_step ih del: find_loop.simps) (auto simp: qualifies_def)
  qed
qed

lemma find_loop_cut:
  assumes "qualifies L c"
  shows "find_loop L frame (pre @ c # post) = find_loop L frame (pre @ [c])"
proof (induction pre)
  case Nil
  show ?case using assms
    by (simp add: find_loop_step del: find_loop.simps) (auto simp: qualifies_def dest: box_ok_height)
next
  case (Cons p pre)
  then show ?case by (simp add: find_loop_step del: find_loop.simps)
qed

lemma py_sorted_reverse_mset: "mset (py_sorted_reverse key xs) = mset xs"
  by (simp add: py_sorted_reverse_def mset_rev)

lemma py_sorted_reverse_desc: "sorted_wrt (\<lambda>a b. key b \<le> key a) (py_sorted_reverse key xs)"
proof -
  have "sorted (map key (sort_key key (rev xs)))" by (rule sorted_sort_key)
  then have "sorted_wrt (\<lambda>a b. key a \<le> key b) (sort_key key (rev xs))"
    by (simp add: sorted_map)
  then show ?thesis
    by (simp add: py_sorted_reverse_def sorted_wrt_rev)
qed

lemma py_sorted_reverse_stable:
  "filter (\<lambda>x. key x = k) (py_sorted_reverse key xs) = filter (\<lambda>x. key x = k) xs"
  by (simp add: py_sorted_reverse_def rev_filter[symmetric] sort_key_stable)


section \<open>What \<open>find_puzzle\<close> returns\<close>

lemma find_loop_result:
  "find_loop L frame cs = (f', r) \<Longrightarrow>
     (r = Inl ZeroDivisionError \<and> f' = frame) \<or>
     (r = Inr None \<and> f' = frame) \<or>
     (\<exists>c \<in> set cs. qualifies L c \<and> r = Inr (Some (approximate L c)) \<and>
        f' = drawContours L frame [approximate L c] (- 1) (0, 255, 0) 2)"
proof (induction cs)
  case Nil
  then show ?case by simp
next
  case (Cons c cs)
  show ?case
  proof (cases "length (approximate L c) = 4 \<and> rect_height L (approximate L c) = 0")
    case True
    then show ?thesis using Cons.prems by (simp add: find_loop_step del: find_loop.simps)
  next
    case nz: False
    show ?thesis
    proof (cases "qualifies L c")
      case True
      then have "find_loop L frame (c # cs) =
          (drawContours L frame [approximate L c] (- 1) (0, 255, 0) 2, Inr (Some (approximate L c)))"
        using nz by (simp add: find_loop_step qualifies_def del: find_loop.simps)
      then show ?thesis using Cons.prems True by auto
    next
      case False
      then have "find_loop L frame (c # cs) = find_loop L frame cs"
        using nz by (auto simp add: find_loop_step qualifies_def simp del: find_loop.simps)
      then have "find_loop L frame cs = (f', r)" using Cons.prems by simp
      from Cons.IH[OF this] show ?thesis by auto
    qed
  qed
qed

lemma qualifies_length: "qualifies L c \<Longrightarrow> length (approximate L c) = 4"
  by (simp add: qualifies_def)

lemma find_puzzle_cases:
  "find_puzzle L frame =
     (case find_loop L frame (frame_contours L frame) of
        (f', Inl e) \<Rightarrow> (f', Inl e)
      | (f', Inr None) \<Rightarrow> (f', Inl PuzzleNotFoundError)
      | (f', Inr (Some q)) \<Rightarrow>
          if length q = 4 then (f', Inr (four_point_transform L (cvtColor L frame COLOR_BGR2GRAY) q))
          else (f', Inl ValueError))"
  by (simp add: find_puzzle_def Let_def reshape_4_2_def frame_gray_def
      split: prod.splits sum.splits option.splits)

lemma find_puzzle_result:
  "(find_puzzle L frame = (frame, Inl ZeroDivisionError) \<and>
      snd (find_loop L frame (frame_contours L frame)) = Inl ZeroDivisionError) \<or>
   (find_puzzle L frame = (frame, Inl PuzzleNotFoundError) \<and>
      snd (find_loop L frame (frame_contours L frame)) = Inr None) \<or>
   (\<exists>c \<in> set (frame_contours L frame). qualifies L c \<and>
      snd (find_loop L frame (frame_contours L frame)) = Inr (Some (approximate L c)) \<and>
      find_puzzle L frame =
        (drawContours L frame [approximate L c] (- 1) (0, 255, 0) 2,
         Inr (four_point_transform L (cvtColor L frame COLOR_BGR2GRAY) (approximate L c))))"
proof -
  obtain f' r where fl: "find_loop L frame (frame_contours L frame) = (f', r)"
    by (cases "find_loop L frame (frame_contours L frame)")
  from find_loop_result[OF fl] show ?thesis
  proof (elim disjE bexE conjE)
    assume "r = Inl ZeroDivisionError" "f' = frame"
    then show ?thesis using fl by (simp add: find_puzzle_cases)
  next
    assume "r = Inr None" "f' = frame"
    then show ?thesis using fl by (simp add: find_puzzle_cases)
  next
    fix c
    assume c: "c \<in> set (frame_contours L frame)" "qualifies L c"
      "r = Inr (Some (approximate L c))"
      "f' = drawContours L frame [approximate L c] (- 1) (0, 255, 0) 2"
    have "find_puzzle L frame =
        (drawContours L frame [approximate L c] (- 1) (0, 255, 0) 2,
         Inr (four_point_transform L (cvtColor L frame COLOR_BGR2GRAY) (approximate L c)))"
      using fl c qualifies_length[OF c(2)] by (simp add: find_puzzle_cases)
    then show ?thesis using c fl by auto
  qed
qed

lemma boxes_have_height_takeWhile:
  "boxes_have_height L cs \<Longrightarrow> boxes_have_height L (takeWhile P cs)"
  by (auto simp: boxes_have_height_def dest: set_takeWhileD)

lemma find_loop_find':
  assumes "boxes_have_height L (takeWhile (\<lambda>c. \<not> qualifies L c) cs)"
  shows "snd (find_loop L frame cs) = Inr (map_option (approximate L) (find (qualifies L) cs))"
proof -
  have "\<forall>p \<in> set (takeWhile (\<lambda>c. \<not> qualifies L c) cs).
          length (approximate L p) = 4 \<longrightarrow> rect_height L (approximate L p) \<noteq> 0"
    using assms by (simp add: boxes_have_height_def)
  from find_loop_find[OF this, of frame] show ?thesis
    by (simp split: option.splits)
qed

lemma float_mul_close:
  assumes "0 \<le> peri"
  shows "\<bar>float_mul lit_0_01 peri - peri / 100\<bar> \<le> peri / 100 * (3 / 2 ^ 53)"
proof (cases "peri = 0")
  case True
  then show ?thesis by (simp add: float_mul_def rn_def)
next
  case False
  then have p: "0 < peri" using assms by simp
  define d :: rat where "d = (1 / 100) / 2 ^ 53"
  have dlt: "d < 1 / 100" by (simp add: d_def)
  have l: "\<bar>lit_0_01 - 1 / 100\<bar> \<le> d"
    unfolding lit_0_01_def d_def by (rule rn_err) simp
  have lpos: "0 < lit_0_01" using l dlt by linarith
  have lle: "lit_0_01 \<le> 1 / 100 + d" using l by linarith
  have x: "0 < lit_0_01 * peri" using p lpos by simp
  have e: "\<bar>float_mul lit_0_01 peri - lit_0_01 * peri\<bar> \<le> lit_0_01 * peri / 2 ^ 53"
    unfolding float_mul_def by (rule rn_err[OF x])
  have "\<bar>lit_0_01 * peri - peri / 100\<bar> = \<bar>lit_0_01 - 1 / 100\<bar> * peri"
  proof -
    have "lit_0_01 * peri - peri / 100 = (lit_0_01 - 1 / 100) * peri" by (simp add: algebra_simps)
    then show ?thesis using p by (simp add: abs_mult)
  qed
  also have "\<dots> \<le> (1 / 100) / 2 ^ 53 * peri"
    using l p unfolding d_def by (simp only: mult_le_cancel_right_pos)
  finally have d: "\<bar>lit_0_01 * peri - peri / 100\<bar> \<le> (1 / 100) / 2 ^ 53 * peri" .
  have "lit_0_01 * peri \<le> (1 / 100 + (1 / 100) / 2 ^ 53) * peri"
    using lle p unfolding d_def by (simp only: mult_le_cancel_right_pos)
  then have "lit_0_01 * peri / 2 ^ 53 \<le> (1 / 100 + (1 / 100) / 2 ^ 53) * peri / 2 ^ 53"
    by (simp add: divide_right_mono)
  also have "\<dots> \<le> 2 * ((1 / 100) / 2 ^ 53 * peri)" using p by simp
  finally have "\<bar>float_mul lit_0_01 peri - lit_0_01 * peri\<bar> \<le> 2 * ((1 / 100) / 2 ^ 53 * peri)"
    using e by linarith
  with d have "\<bar>float_mul lit_0_01 peri - peri / 100\<bar> \<le> 3 * ((1 / 100) / 2 ^ 53 * peri)"
    by linarith
  then show ?thesis by simp
qed

section \<open>What \<open>extract_digit\<close> returns\<close>

lemma max_from_split:
  "(max_from key b xs = b \<and> (\<forall>q \<in> set xs. key q \<le> key b)) \<or>
   (\<exists>pre post. xs = pre @ max_from key b xs # post \<and> key b < key (max_from key b xs) \<and>
      (\<forall>p \<in> set pre. key p < key (max_from key b xs)) \<and>
      (\<forall>q \<in> set post. key q \<le> key (max_from key b xs)))"
proof (induction xs arbitrary: b)
  case Nil
  then show ?case by simp
next
  case (Cons y ys)
  show ?case
  proof (cases "key b < key y")
    case True
    then have m: "max_from key b (y # ys) = max_from key y ys" by simp
    from Cons.IH[of y] show ?thesis
    proof (elim disjE conjE exE)
      assume a: "max_from key y ys = y" "\<forall>q \<in> set ys. key q \<le> key y"
      have "y # ys = [] @ max_from key b (y # ys) # ys" using m a by simp
      moreover have "key b < key (max_from key b (y # ys))" using m a True by simp
      moreover have "\<forall>q \<in> set ys. key q \<le> key (max_from key b (y # ys))" using m a by simp
      ultimately show ?thesis by (intro disjI2 exI[of _ "[]"] exI[of _ ys]) simp
    next
      fix pre post
      assume a: "ys = pre @ max_from key y ys # post" "key y < key (max_from key y ys)"
        "\<forall>p \<in> set pre. key p < key (max_from key y ys)"
        "\<forall>q \<in> set post. key q \<le> key (max_from key y ys)"
      have "y # ys = (y # pre) @ max_from key b (y # ys) # post" using m a(1) by simp
      moreover have "key b < key (max_from key b (y # ys))" using m a(2) True by simp
      moreover have "\<forall>p \<in> set (y # pre). key p < key (max_from key b (y # ys))"
        using m a(2,3) by simp
      moreover have "\<forall>q \<in> set post. key q \<le> key (max_from key b (y # ys))" using m a(4) by simp
      ultimately show ?thesis by (intro disjI2 exI[of _ "y # pre"] exI[of _ post]) simp
    qed
  next
    case False
    then have m: "max_from key b (y # ys) = max_from key b ys" by simp
    from Cons.IH[of b] show ?thesis
    proof (elim disjE conjE exE)
      assume a: "max_from key b ys = b" "\<forall>q \<in> set ys. key q \<le> key b"
      then show ?thesis using m False by auto
    next
      fix pre post
      assume a: "ys = pre @ max_from key b ys # post" "key b < key (max_from key b ys)"
        "\<forall>p \<in> set pre. key p < key (max_from key b ys)"
        "\<forall>q \<in> set post. key q \<le> key (max_from key b ys)"
      have "y # ys = (y # pre) @ max_from key b (y # ys) # post" using m a(1) by simp
      moreover have "key b < key (max_from key b (y # ys))" using m a(2) by simp
      moreover have "\<forall>p \<in> set (y # pre). key p < key (max_from key b (y # ys))"
        using m a(2,3) False by auto
      moreover have "\<forall>q \<in> set post. key q \<le> key (max_from key b (y # ys))" using m a(4) by simp
      ultimately show ?thesis by (intro disjI2 exI[of _ "y # pre"] exI[of _ post]) simp
    qed
  qed
qed

lemma py_max_first_largest:
  assumes "xs \<noteq> []"
  shows "\<exists>pre c post. xs = pre @ c # post \<and> py_max key xs = Inr c \<and>
           (\<forall>p \<in> set pre. key p < key c) \<and> (\<forall>q \<in> set post. key q \<le> key c)"
proof -
  obtain b rest where xs: "xs = b # rest" using assms by (cases xs) auto
  have pm: "py_max key xs = Inr (max_from key b rest)" by (simp add: py_max_def xs)
  from max_from_split[of key b rest] show ?thesis
  proof (elim disjE conjE exE)
    assume a: "max_from key b rest = b" "\<forall>q \<in> set rest. key q \<le> key b"
    have "xs = [] @ b # rest" by (simp add: xs)
    then show ?thesis using pm a by (intro exI[of _ "[]"] exI[of _ b] exI[of _ rest]) simp
  next
    fix pre post
    assume a: "rest = pre @ max_from key b rest # post" "key b < key (max_from key b rest)"
      "\<forall>p \<in> set pre. key p < key (max_from key b rest)"
      "\<forall>q \<in> set post. key q \<le> key (max_from key b rest)"
    have "xs = (b # pre) @ max_from key b rest # post" using a(1) xs by simp
    then show ?thesis using pm a
      by (intro exI[of _ "b # pre"] exI[of _ "max_from key b rest"] exI[of _ post]) simp
  qed
qed

lemma extract_digit_empty:
  "cell_contours L cell = [] \<Longrightarrow> extract_digit L cell = (cell, Inr (None, True))"
  by (simp add: extract_digit_def Let_def)

lemma extract_digit_nonempty:
  assumes "cell_contours L cell \<noteq> []" and "py_max (contourArea L) (cell_contours L cell) = Inr c"
  shows "extract_digit L cell =
     (cell, Inr (Some (bitwise_and (cell_thresh L cell) (cell_thresh L cell)
        (drawContours L (np_zeros (shape (cell_thresh L cell))) [c] (- 1) 255 (- 1))), False))"
  using assms by (simp add: extract_digit_def Let_def)

lemma zip_self_same:
  "(a, b, m) \<in> set (zip xs (zip xs ys)) \<Longrightarrow> a = b \<and> a \<in> set xs"
  by (auto simp: in_set_zip)

lemma bitwise_and_values:
  "set (data (bitwise_and src src msk)) \<subseteq> insert 0 (set (data src))"
  by (auto simp: bitwise_and_def dest!: zip_self_same)

lemma threshold_values:
  "set (data (snd (threshold_BINARY_INV_OTSU L src t maxval))) \<subseteq> {0, maxval}"
  by (auto simp: threshold_BINARY_INV_OTSU_def Let_def)

lemma threshold_uniform:
  "set (data src) \<subseteq> {v} \<Longrightarrow>
   \<exists>v'. set (data (snd (threshold_BINARY_INV_OTSU L src t maxval))) \<subseteq> {v'}"
  by (auto simp: threshold_BINARY_INV_OTSU_def Let_def)

lemma cell_thresh_values:
  assumes "clear_border_only_clears L"
  shows "set (data (cell_thresh L cell)) \<subseteq> {0, 255}"
proof -
  have "set (data (cell_thresh L cell))
      \<subseteq> insert 0 (set (data (snd (threshold_BINARY_INV_OTSU L cell 0 255))))"
    using assms by (simp add: cell_thresh_def Let_def clear_border_only_clears_def)
  then show ?thesis using threshold_values[of L cell 0 255] by blast
qed

section \<open>The small library on the sample images\<close>

lemma ref_clear_border_only_clears: "clear_border_only_clears cv_ref"
  by (auto simp: clear_border_only_clears_def cv_ref_def ref_clear_border_def)

lemma ref_clear_border_uniform: "clear_border_clears_uniform cv_ref"
proof -
  have "set (data (ref_clear_border img)) \<subseteq> {0}" if u: "set (data img) \<subseteq> {v}" for img v
  proof (cases "list_ex (\<lambda>i. on_border img i \<and> data img ! i \<noteq> 0) [0..<length (data img)]")
    case True
    then show ?thesis by (auto simp: ref_clear_border_def)
  next
    case False
    have "set (data img) \<subseteq> {0}"
    proof (cases "data img = [] \<or> v = 0")
      case True
      then show ?thesis using u by auto
    next
      case nz: False
      then have l: "0 < length (data img)" by simp
      then have "data img ! 0 \<in> set (data img)" by (intro nth_mem)
      then have "data img ! 0 = v" using u by blast
      then have "data img ! 0 \<noteq> 0" using nz by simp
      moreover have "on_border img 0" by (simp add: on_border_def)
      ultimately have "list_ex (\<lambda>i. on_border img i \<and> data img ! i \<noteq> 0) [0..<length (data img)]"
        using l by (auto simp: list_ex_iff)
      then show ?thesis using False by simp
    qed
    then show ?thesis using False by (simp add: ref_clear_border_def)
  qed
  then show ?thesis by (simp add: clear_border_clears_uniform_def cv_ref_def)
qed

lemma ref_no_contours: "no_contours_without_foreground cv_ref"
  by (auto simp: no_contours_without_foreground_def cv_ref_def ref_contours_def list_all_iff)

lemma frame0_contours:
  "frame_contours cv_ref frame0 =
     [ [(0, 0), (49, 0), (49, 49), (25, 49), (0, 49)],
      [(1, 1), (48, 1), (48, 48), (1, 48)],
      [(0, 0), (2, 0), (0, 2)] ]"
  by code_simp

lemma frame1_contours:
  "frame_contours cv_ref frame1 =
     [ [(0, 0), (11, 0), (11, 11), (6, 11), (0, 11)],
      [(1, 1), (10, 1), (10, 10), (1, 10)],
      [(0, 0), (2, 0), (0, 2)] ]"
  by code_simp

lemma frame0_qualifies:
  "\<not> qualifies cv_ref [(0, 0), (49, 0), (49, 49), (25, 49), (0, 49)]"
  "qualifies cv_ref [(1, 1), (48, 1), (48, 48), (1, 48)]"
  "approximate cv_ref [(1, 1), (48, 1), (48, 48), (1, 48)] = [(1, 1), (48, 1), (48, 48), (1, 48)]"
  by code_simp+

lemma frame1_qualifies:
  "\<not> qualifies cv_ref [(0, 0), (11, 0), (11, 11), (6, 11), (0, 11)]"
  "\<not> qualifies cv_ref [(1, 1), (10, 1), (10, 10), (1, 10)]"
  "\<not> qualifies cv_ref [(0, 0), (2, 0), (0, 2)]"
  by code_simp+

lemma frame1_heights:
  "boxes_have_height cv_ref
     [ [(0, 0), (11, 0), (11, 11), (6, 11), (0, 11)],
      [(1, 1), (10, 1), (10, 10), (1, 10)],
      [(0, 0), (2, 0), (0, 2)] ]"
  by code_simp

lemma frame0_heights:
  "boxes_have_height cv_ref [ [(0, 0), (49, 0), (49, 49), (25, 49), (0, 49)] ]"
  by code_simp

lemma frame1_square:
  "length (approximate cv_ref [(1, 1), (10, 1), (10, 10), (1, 10)]) = 4"
  "boundingRect cv_ref (approximate cv_ref [(1, 1), (10, 1), (10, 10), (1, 10)]) = (1, 1, 10, 10)"
  "length (approximate cv_ref [(0, 0), (11, 0), (11, 11), (6, 11), (0, 11)]) = 5"
  "length (approximate cv_ref [(0, 0), (2, 0), (0, 2)]) = 3"
  by code_simp+

lemma cell0_contours:
  "cell_contours cv_ref cell0 =
     [ [(0, 0), (2, 0), (0, 2)], [(1, 1), (3, 1), (3, 3), (1, 3)],
      [(0, 0), (4, 0), (4, 4), (2, 4), (0, 4)] ]"
  by code_simp

lemma cell0_digit:
  "extract_digit cv_ref cell0 =
     (cell0, Inr (Some \<lparr>rows = 5, cols = 5, data =
        [0, 0, 0, 0, 0,
         0, 0, 255, 0, 0,
         0, 0, 255, 0, 0,
         0, 0, 255, 0, 0,
         0, 0, 0, 0, 0]\<rparr>, False))"
  by code_simp

lemma cell_blank_contours: "cell_contours cv_ref cell_blank = []"
  by code_simp

lemma frame0_changed: "fst (find_puzzle cv_ref frame0) \<noteq> frame0"
  by code_simp

lemma frame1_not_found: "snd (find_puzzle cv_ref frame1) = Inl PuzzleNotFoundError"
  by code_simp

section \<open>The claims\<close>

text \<open>
  C1.  The loop goes through the contours of the frame in descending order of enclosed area
  (a stable sort of what \<open>findContours\<close> returned: contours of equal area keep their
  order) and accepts exactly the first contour that
  qualifies: its polygon approximation has exactly 4 vertices and a bounding box more than
  45 pixels wide and high whose ratio of width to height lies in [0.8, 1.2], as exact
  numbers.  The contours after that one are not examined: the loop over the whole list is the
  loop over the list cut after it.  The tolerance of the approximation is 1% of the perimeter,
  up to the rounding of the two floating-point operations.  The contours before the accepted
  one are assumed to have bounding boxes of a height other than 0.
\<close>

theorem find_puzzle_accepts_first_qualifying:
  assumes "boxes_have_height L (takeWhile (\<lambda>c. \<not> qualifies L c) (frame_contours L frame))"
  shows "mset (frame_contours L frame) =
           mset (findContours L (frame_thresh L frame) RETR_EXTERNAL CHAIN_APPROX_SIMPLE)
       \<and> sorted_wrt (\<lambda>a b. contourArea L b \<le> contourArea L a) (frame_contours L frame)
       \<and> (\<forall>k. filter (\<lambda>c. contourArea L c = k) (frame_contours L frame) =
            filter (\<lambda>c. contourArea L c = k)
              (findContours L (frame_thresh L frame) RETR_EXTERNAL CHAIN_APPROX_SIMPLE))
       \<and> snd (find_loop L frame (frame_contours L frame)) =
           Inr (map_option (approximate L) (find (qualifies L) (frame_contours L frame)))
       \<and> (\<forall>pre c post. frame_contours L frame = pre @ c # post \<and> qualifies L c \<longrightarrow>
            find_loop L frame (frame_contours L frame) = find_loop L frame (pre @ [c]))
       \<and> (\<forall>c. 0 \<le> arcLength L c True \<longrightarrow>
            (\<exists>epsilon. approximate L c = approxPolyDP L c epsilon True \<and>
               \<bar>epsilon - arcLength L c True / 100\<bar> \<le> arcLength L c True / 100 * (3 / 2 ^ 53)))"
proof (intro conjI allI impI)
  show "mset (frame_contours L frame) =
           mset (findContours L (frame_thresh L frame) RETR_EXTERNAL CHAIN_APPROX_SIMPLE)"
    by (simp add: frame_contours_def Let_def py_sorted_reverse_mset)
  show "sorted_wrt (\<lambda>a b. contourArea L b \<le> contourArea L a) (frame_contours L frame)"
    by (simp add: frame_contours_def Let_def py_sorted_reverse_desc)
  show "filter (\<lambda>c. contourArea L c = k) (frame_contours L frame) =
            filter (\<lambda>c. contourArea L c = k)
              (findContours L (frame_thresh L frame) RETR_EXTERNAL CHAIN_APPROX_SIMPLE)" for k
    by (simp add: frame_contours_def Let_def py_sorted_reverse_stable)
  show "snd (find_loop L frame (frame_contours L frame)) =
           Inr (map_option (approximate L) (find (qualifies L) (frame_contours L frame)))"
    using assms by (rule find_loop_find')
next
  fix pre c post
  assume "frame_contours L frame = pre @ c # post \<and> qualifies L c"
  then show "find_loop L frame (frame_contours L frame) = find_loop L frame (pre @ [c])"
    using find_loop_cut[of L c frame pre post] by simp
next
  fix c
  assume "0 \<le> arcLength L c True"
  then have "\<bar>float_mul lit_0_01 (arcLength L c True) - arcLength L c True / 100\<bar>
      \<le> arcLength L c True / 100 * (3 / 2 ^ 53)"
    by (rule float_mul_close)
  then show "\<exists>epsilon. approximate L c = approxPolyDP L c epsilon True \<and>
      \<bar>epsilon - arcLength L c True / 100\<bar> \<le> arcLength L c True / 100 * (3 / 2 ^ 53)"
    by (auto simp: approximate_def Let_def)
qed

theorem find_puzzle_accepts_first_qualifying_witness:
  "boxes_have_height cv_ref
     (takeWhile (\<lambda>c. \<not> qualifies cv_ref c) (frame_contours cv_ref frame0))
   \<and> snd (find_loop cv_ref frame0 (frame_contours cv_ref frame0)) =
       Inr (Some [(1, 1), (48, 1), (48, 48), (1, 48)])
   \<and> find_loop cv_ref frame0 (frame_contours cv_ref frame0) =
       find_loop cv_ref frame0
         [ [(0, 0), (49, 0), (49, 49), (25, 49), (0, 49)], [(1, 1), (48, 1), (48, 48), (1, 48)] ]"
proof -
  have h: "boxes_have_height cv_ref
     (takeWhile (\<lambda>c. \<not> qualifies cv_ref c) (frame_contours cv_ref frame0))"
    by (simp add: frame0_contours frame0_qualifies frame0_heights)
  have f: "find (qualifies cv_ref) (frame_contours cv_ref frame0) =
      Some [(1, 1), (48, 1), (48, 48), (1, 48)]"
    by (simp add: frame0_contours frame0_qualifies)
  have s: "frame_contours cv_ref frame0 =
      [ [(0, 0), (49, 0), (49, 49), (25, 49), (0, 49)] ] @ [(1, 1), (48, 1), (48, 48), (1, 48)]
        # [ [(0, 0), (2, 0), (0, 2)] ]"
    by (simp add: frame0_contours)
  note t = find_puzzle_accepts_first_qualifying[OF h]
  have 1: "snd (find_loop cv_ref frame0 (frame_contours cv_ref frame0)) =
       Inr (Some [(1, 1), (48, 1), (48, 48), (1, 48)])"
    using t by (simp add: f frame0_qualifies)
  have "find_loop cv_ref frame0 (frame_contours cv_ref frame0) =
       find_loop cv_ref frame0
         ([ [(0, 0), (49, 0), (49, 49), (25, 49), (0, 49)] ] @ [ [(1, 1), (48, 1), (48, 48), (1, 48)] ])"
    using t s frame0_qualifies(2) by blast
  then show ?thesis using h 1 by simp
qed

text \<open>
  C2.  When the bounding boxes have a height other than 0, \<open>find_puzzle\<close> raises
  \<open>PuzzleNotFoundError\<close> (the grid-not-found error of the specification) exactly when no contour
  of the frame qualifies, it raises nothing else, and \<open>extract_digit\<close> raises nothing at all.
\<close>

theorem find_puzzle_not_found:
  assumes "boxes_have_height L (frame_contours L frame)"
  shows "(snd (find_puzzle L frame) = Inl PuzzleNotFoundError \<longleftrightarrow>
            (\<forall>c \<in> set (frame_contours L frame). \<not> qualifies L c))
       \<and> ((\<forall>c \<in> set (frame_contours L frame). \<not> qualifies L c) \<longrightarrow>
            find_puzzle L frame = (frame, Inl PuzzleNotFoundError))
       \<and> (\<forall>e. snd (find_puzzle L frame) = Inl e \<longrightarrow> e = PuzzleNotFoundError)
       \<and> (\<forall>cell. \<exists>out. snd (extract_digit L cell) = Inr out)"
proof -
  have fl: "snd (find_loop L frame (frame_contours L frame)) =
      Inr (map_option (approximate L) (find (qualifies L) (frame_contours L frame)))"
    using assms by (intro find_loop_find' boxes_have_height_takeWhile)
  have none: "find (qualifies L) (frame_contours L frame) = None \<longleftrightarrow>
      (\<forall>c \<in> set (frame_contours L frame). \<not> qualifies L c)"
    by (auto simp: find_None_iff)
  have 1: "(\<forall>c \<in> set (frame_contours L frame). \<not> qualifies L c) \<Longrightarrow>
      find_puzzle L frame = (frame, Inl PuzzleNotFoundError)"
    using find_puzzle_result[of L frame] fl none by auto
  have 2: "snd (find_puzzle L frame) = Inl e \<Longrightarrow>
      e = PuzzleNotFoundError \<and> (\<forall>c \<in> set (frame_contours L frame). \<not> qualifies L c)" for e
    using find_puzzle_result[of L frame] fl none by auto
  have 3: "\<exists>out. snd (extract_digit L cell) = Inr out" for cell
  proof (cases "cell_contours L cell = []")
    case True
    show ?thesis using extract_digit_empty[OF True] by (intro exI[of _ "(None, True)"]) simp
  next
    case False
    from py_max_first_largest[OF False, of "contourArea L"] obtain c
      where "py_max (contourArea L) (cell_contours L cell) = Inr c" by blast
    from extract_digit_nonempty[OF False this] show ?thesis by auto
  qed
  show ?thesis using 1 2 3 by auto
qed

theorem find_puzzle_not_found_witness:
  "boxes_have_height cv_ref (frame_contours cv_ref frame1)
   \<and> find (qualifies cv_ref) (frame_contours cv_ref frame1) = None
   \<and> find_puzzle cv_ref frame1 = (frame1, Inl PuzzleNotFoundError)"
proof -
  have h: "boxes_have_height cv_ref (frame_contours cv_ref frame1)"
    by (simp add: frame1_contours frame1_heights)
  have f: "find (qualifies cv_ref) (frame_contours cv_ref frame1) = None"
    by (simp add: frame1_contours frame1_qualifies)
  then have n: "\<forall>c \<in> set (frame_contours cv_ref frame1). \<not> qualifies cv_ref c"
    by (auto simp: find_None_iff)
  from find_puzzle_not_found[OF h] n show ?thesis using h f by blast
qed

text \<open>
  C3.  When at least one contour is found in the thresholded and border-cleared cell,
  \<open>extract_digit\<close> takes the first contour of largest area, draws it filled with 255 on a zero
  image of the shape of the thresholded image, takes the conjunction of the thresholded image
  with itself under that mask, and returns the result with the flag \<open>False\<close>.
\<close>

theorem extract_digit_largest_contour:
  assumes "cell_contours L cell \<noteq> []"
  shows "\<exists>pre c post. cell_contours L cell = pre @ c # post
        \<and> (\<forall>p \<in> set pre. contourArea L p < contourArea L c)
        \<and> (\<forall>q \<in> set post. contourArea L q \<le> contourArea L c)
        \<and> extract_digit L cell =
            (cell, Inr (Some (bitwise_and (cell_thresh L cell) (cell_thresh L cell)
               (drawContours L (np_zeros (shape (cell_thresh L cell))) [c] (- 1) 255 (- 1))),
             False))"
proof -
  from py_max_first_largest[OF assms, of "contourArea L"] obtain pre c post where
    s: "cell_contours L cell = pre @ c # post"
    and m: "py_max (contourArea L) (cell_contours L cell) = Inr c"
    and o: "\<forall>p \<in> set pre. contourArea L p < contourArea L c"
       "\<forall>q \<in> set post. contourArea L q \<le> contourArea L c"
    by blast
  show ?thesis using s o extract_digit_nonempty[OF assms m] by blast
qed

theorem extract_digit_largest_contour_witness:
  "cell_contours cv_ref cell0 \<noteq> []
   \<and> (\<exists>c \<in> set (cell_contours cv_ref cell0).
        (\<forall>c' \<in> set (cell_contours cv_ref cell0). ref_area c' \<le> ref_area c)
        \<and> extract_digit cv_ref cell0 =
            (cell0, Inr (Some (bitwise_and (cell_thresh cv_ref cell0) (cell_thresh cv_ref cell0)
               (drawContours cv_ref (np_zeros (shape (cell_thresh cv_ref cell0))) [c] (- 1) 255 (- 1))),
             False)))"
proof -
  have h: "cell_contours cv_ref cell0 \<noteq> []" by (simp add: cell0_contours)
  have a: "contourArea cv_ref = ref_area" by (simp add: cv_ref_def)
  from extract_digit_largest_contour[OF h] obtain pre c post where
    s: "cell_contours cv_ref cell0 = pre @ c # post"
    and o: "\<forall>p \<in> set pre. ref_area p < ref_area c" "\<forall>q \<in> set post. ref_area q \<le> ref_area c"
    and e: "extract_digit cv_ref cell0 =
            (cell0, Inr (Some (bitwise_and (cell_thresh cv_ref cell0) (cell_thresh cv_ref cell0)
               (drawContours cv_ref (np_zeros (shape (cell_thresh cv_ref cell0))) [c] (- 1) 255 (- 1))),
             False))"
    unfolding a by blast
  have "c \<in> set (cell_contours cv_ref cell0)" using s by simp
  moreover have "\<forall>c' \<in> set (cell_contours cv_ref cell0). ref_area c' \<le> ref_area c"
    using s o by (auto simp: less_imp_le)
  ultimately show ?thesis using h e by blast
qed

text \<open>
  C4.  When no contour is found in the thresholded and border-cleared cell, \<open>extract_digit\<close>
  returns \<open>(None, True)\<close>.  A cell whose pixels all have the same value is such a cell, for a
  library whose \<open>clear_border\<close> leaves no foreground in a uniform image and whose
  \<open>findContours\<close> finds nothing in an image without foreground.
\<close>

theorem extract_digit_empty_cell:
  "(cell_contours L cell = [] \<longrightarrow> extract_digit L cell = (cell, Inr (None, True)))
   \<and> (clear_border_clears_uniform L \<and> no_contours_without_foreground L
        \<and> set (data cell) \<subseteq> {v} \<longrightarrow> extract_digit L cell = (cell, Inr (None, True)))"
proof (intro conjI impI)
  assume "cell_contours L cell = []"
  then show "extract_digit L cell = (cell, Inr (None, True))" by (rule extract_digit_empty)
next
  assume a: "clear_border_clears_uniform L \<and> no_contours_without_foreground L
        \<and> set (data cell) \<subseteq> {v}"
  then obtain v' where "set (data (snd (threshold_BINARY_INV_OTSU L cell 0 255))) \<subseteq> {v'}"
    using threshold_uniform[of cell v L 0 255] by blast
  then have "set (data (cell_thresh L cell)) \<subseteq> {0}"
    using a unfolding cell_thresh_def Let_def clear_border_clears_uniform_def by blast
  then have "cell_contours L cell = []"
    using a unfolding cell_contours_def no_contours_without_foreground_def by blast
  then show "extract_digit L cell = (cell, Inr (None, True))" by (rule extract_digit_empty)
qed

theorem extract_digit_empty_cell_witness:
  "cell_contours cv_ref cell_blank = []
   \<and> clear_border_clears_uniform cv_ref \<and> no_contours_without_foreground cv_ref
   \<and> set (data cell_blank) \<subseteq> {200}
   \<and> extract_digit cv_ref cell_blank = (cell_blank, Inr (None, True))"
proof -
  have u: "set (data cell_blank) \<subseteq> {200}" by (simp add: cell_blank_def)
  from extract_digit_empty_cell[of cv_ref cell_blank 200]
  show ?thesis
    using u cell_blank_contours ref_clear_border_uniform ref_no_contours by blast
qed

text \<open>
  C5.  \<open>find_puzzle\<close> succeeds exactly when the loop accepts a contour, and what it returns is
  then the four-point transform of the grayscale conversion of the frame as it was passed
  in, at the 4 points of the accepted polygon approximation, in the order in which
  \<open>approxPolyDP\<close> produced them.
\<close>

theorem find_puzzle_transforms_gray:
  "(\<forall>view. snd (find_puzzle L frame) = Inr view \<longleftrightarrow>
      (\<exists>puzzle_cnt. snd (find_loop L frame (frame_contours L frame)) = Inr (Some puzzle_cnt)
         \<and> view = four_point_transform L (cvtColor L frame COLOR_BGR2GRAY) puzzle_cnt))
   \<and> (\<forall>puzzle_cnt. snd (find_loop L frame (frame_contours L frame)) = Inr (Some puzzle_cnt) \<longrightarrow>
        length puzzle_cnt = 4
        \<and> (\<exists>c \<in> set (frame_contours L frame).
             puzzle_cnt = approxPolyDP L c (float_mul lit_0_01 (arcLength L c True)) True))"
proof -
  have ap: "approximate L c = approxPolyDP L c (float_mul lit_0_01 (arcLength L c True)) True" for c
    by (simp add: approximate_def Let_def)
  show ?thesis
    using find_puzzle_result[of L frame]
    by (elim disjE bexE conjE) (auto simp: ap[symmetric] dest: qualifies_length)
qed

theorem find_puzzle_transforms_gray_witness:
  "snd (find_loop cv_ref frame0 (frame_contours cv_ref frame0)) =
       Inr (Some [(1, 1), (48, 1), (48, 48), (1, 48)])
   \<and> snd (find_puzzle cv_ref frame0) =
       Inr (four_point_transform cv_ref (cvtColor cv_ref frame0 COLOR_BGR2GRAY)
              [(1, 1), (48, 1), (48, 48), (1, 48)])"
proof -
  have h: "boxes_have_height cv_ref
     (takeWhile (\<lambda>c. \<not> qualifies cv_ref c) (frame_contours cv_ref frame0))"
    by (simp add: frame0_contours frame0_qualifies frame0_heights)
  have l: "snd (find_loop cv_ref frame0 (frame_contours cv_ref frame0)) =
       Inr (Some [(1, 1), (48, 1), (48, 48), (1, 48)])"
    using find_loop_find'[OF h, of frame0] by (simp add: frame0_contours frame0_qualifies)
  from find_puzzle_transforms_gray[of cv_ref frame0] l show ?thesis by blast
qed

text \<open>
  C6.  When the only contour of the frame whose approximation has 4 vertices has a bounding
  box at most 45 pixels wide or at most 45 pixels high (and of a height other than 0),
  \<open>find_puzzle\<close> raises \<open>PuzzleNotFoundError\<close> and leaves the frame as it was; the test of the
  loop body rejects that contour.
\<close>

theorem find_puzzle_rejects_small:
  assumes "c \<in> set (frame_contours L frame)"
    and "length (approximate L c) = 4"
    and "rect_height L (approximate L c) \<noteq> 0"
    and "rect_width L (approximate L c) \<le> 45 \<or> rect_height L (approximate L c) \<le> 45"
    and "\<forall>c' \<in> set (frame_contours L frame). c' \<noteq> c \<longrightarrow> length (approximate L c') \<noteq> 4"
  shows "find_puzzle L frame = (frame, Inl PuzzleNotFoundError)
       \<and> passes_tests L (approximate L c) = Inr False"
proof -
  have nb: "\<not> box_ok L (approximate L c)" using assms(4) by (auto simp: box_ok_def)
  have nq: "\<forall>c' \<in> set (frame_contours L frame). \<not> qualifies L c'"
    using assms(5) nb by (auto simp: qualifies_def)
  have bh: "boxes_have_height L (frame_contours L frame)"
    using assms(3,5) by (auto simp: boxes_have_height_def)
  have fl: "snd (find_loop L frame (frame_contours L frame)) =
      Inr (map_option (approximate L) (find (qualifies L) (frame_contours L frame)))"
    using bh by (intro find_loop_find' boxes_have_height_takeWhile)
  have "find (qualifies L) (frame_contours L frame) = None" using nq by (simp add: find_None_iff)
  then have "find_puzzle L frame = (frame, Inl PuzzleNotFoundError)"
    using find_puzzle_result[of L frame] fl by auto
  moreover have "passes_tests L (approximate L c) = Inr False"
    using passes_tests_nonzero[OF assms(3)] nb by simp
  ultimately show ?thesis by simp
qed

theorem find_puzzle_rejects_small_witness:
  "[(1, 1), (10, 1), (10, 10), (1, 10)] \<in> set (frame_contours cv_ref frame1)
   \<and> length (approximate cv_ref [(1, 1), (10, 1), (10, 10), (1, 10)]) = 4
   \<and> boundingRect cv_ref (approximate cv_ref [(1, 1), (10, 1), (10, 10), (1, 10)]) = (1, 1, 10, 10)
   \<and> find_puzzle cv_ref frame1 = (frame1, Inl PuzzleNotFoundError)
   \<and> passes_tests cv_ref (approximate cv_ref [(1, 1), (10, 1), (10, 10), (1, 10)]) = Inr False"
proof -
  let ?c = "[(1, 1), (10, 1), (10, 10), (1, 10)] :: contour"
  have 1: "?c \<in> set (frame_contours cv_ref frame1)" by (simp add: frame1_contours)
  have 2: "length (approximate cv_ref ?c) = 4" by (rule frame1_square(1))
  have 3: "rect_height cv_ref (approximate cv_ref ?c) \<noteq> 0"
    by (simp add: rect_height_def frame1_square(2))
  have 4: "rect_width cv_ref (approximate cv_ref ?c) \<le> 45 \<or> rect_height cv_ref (approximate cv_ref ?c) \<le> 45"
    by (simp add: rect_width_def frame1_square(2))
  have 5: "\<forall>c' \<in> set (frame_contours cv_ref frame1). c' \<noteq> ?c \<longrightarrow> length (approximate cv_ref c') \<noteq> 4"
    by (simp add: frame1_contours frame1_square)
  from find_puzzle_rejects_small[OF 1 2 3 4 5] show ?thesis
    using 1 2 frame1_square(2) by simp
qed

text \<open>
  C8.  For a library whose \<open>clear_border\<close> only sets pixels to 0, every pixel of a mask
  that \<open>extract_digit\<close> returns is 0 or 255.
\<close>

theorem extract_digit_mask_binary:
  assumes "clear_border_only_clears L"
    and "snd (extract_digit L cell) = Inr (Some digit, e)"
  shows "set (data digit) \<subseteq> {0, 255}"
proof (cases "cell_contours L cell = []")
  case True
  then show ?thesis using assms(2) by (simp add: extract_digit_empty)
next
  case False
  from py_max_first_largest[OF False, of "contourArea L"] obtain c
    where "py_max (contourArea L) (cell_contours L cell) = Inr c" by blast
  then have "digit = bitwise_and (cell_thresh L cell) (cell_thresh L cell)
        (drawContours L (np_zeros (shape (cell_thresh L cell))) [c] (- 1) 255 (- 1))"
    using assms(2) False by (simp add: extract_digit_nonempty)
  then have "set (data digit) \<subseteq> insert 0 (set (data (cell_thresh L cell)))"
    using bitwise_and_values by simp
  then show ?thesis using cell_thresh_values[OF assms(1), of cell] by blast
qed

theorem extract_digit_mask_binary_witness:
  "clear_border_only_clears cv_ref
   \<and> snd (extract_digit cv_ref cell0) =
       Inr (Some \<lparr>rows = 5, cols = 5, data =
          [0, 0, 0, 0, 0,
           0, 0, 255, 0, 0,
           0, 0, 255, 0, 0,
           0, 0, 255, 0, 0,
           0, 0, 0, 0, 0]\<rparr>, False)
   \<and> set (data \<lparr>rows = 5, cols = 5, data =
          [0, 0, 0, 0, 0,
           0, 0, 255, 0, 0,
           0, 0, 255, 0, 0,
           0, 0, 255, 0, 0,
           0, 0, 0, 0, 0 :: u8]\<rparr>) \<subseteq> {0, 255}"
proof -
  have s: "snd (extract_digit cv_ref cell0) =
       Inr (Some \<lparr>rows = 5, cols = 5, data =
          [0, 0, 0, 0, 0,
           0, 0, 255, 0, 0,
           0, 0, 255, 0, 0,
           0, 0, 255, 0, 0,
           0, 0, 0, 0, 0]\<rparr>, False)"
    by (simp add: cell0_digit)
  from extract_digit_mask_binary[OF ref_clear_border_only_clears s]
  show ?thesis using ref_clear_border_only_clears s by blast
qed

text \<open>
  C9.  Whenever \<open>find_puzzle\<close> raises an error the caller's frame is as it was; the frame is
  different after the call only when a qualifying contour was accepted, drawn on the frame,
  and a view returned.
\<close>

theorem find_puzzle_frame_effect:
  "(\<forall>e. snd (find_puzzle L frame) = Inl e \<longrightarrow> fst (find_puzzle L frame) = frame)
   \<and> (fst (find_puzzle L frame) \<noteq> frame \<longrightarrow>
        (\<exists>c \<in> set (frame_contours L frame). qualifies L c
           \<and> fst (find_puzzle L frame) = drawContours L frame [approximate L c] (- 1) (0, 255, 0) 2
           \<and> (\<exists>view. snd (find_puzzle L frame) = Inr view)))"
  using find_puzzle_result[of L frame] by (elim disjE bexE conjE) auto

theorem find_puzzle_frame_effect_witness:
  "snd (find_puzzle cv_ref frame1) = Inl PuzzleNotFoundError
   \<and> fst (find_puzzle cv_ref frame1) = frame1
   \<and> fst (find_puzzle cv_ref frame0) \<noteq> frame0
   \<and> (\<exists>view. snd (find_puzzle cv_ref frame0) = Inr view)"
proof -
  have 1: "fst (find_puzzle cv_ref frame1) = frame1"
    using find_puzzle_frame_effect[of cv_ref frame1] frame1_not_found by blast
  have 2: "\<exists>view. snd (find_puzzle cv_ref frame0) = Inr view"
    using find_puzzle_frame_effect[of cv_ref frame0] frame0_changed by blast
  show ?thesis using 1 2 frame1_not_found frame0_changed by simp
qed

text \<open>
  C10.  \<open>extract_digit\<close> always returns a pair, and in it the mask is \<open>None\<close> exactly when the
  flag is \<open>True\<close>.
\<close>

theorem extract_digit_consistent:
  "\<exists>m e. snd (extract_digit L cell) = Inr (m, e) \<and> (m = None \<longleftrightarrow> e)"
proof (cases "cell_contours L cell = []")
  case True
  show ?thesis using extract_digit_empty[OF True] by auto
next
  case False
  from py_max_first_largest[OF False, of "contourArea L"] obtain c
    where "py_max (contourArea L) (cell_contours L cell) = Inr c" by blast
  from extract_digit_nonempty[OF False this] show ?thesis by auto
qed

end
